theory Spec2Isabelle
  imports Main "HOL-Library.Sublist" "HOL-Library.List_Lexorder"
    "HOL-Library.Product_Lexorder" "HOL-Library.AList" "HOL-Library.Word"
begin

section \<open>Python strings\<close>

text \<open>
  A Python \<open>str\<close> is a sequence of Unicode code points. A code point is modelled as a
  natural number and a string as a list of them, so that \<open>strip\<close>, the regular
  expression and the comparison used by \<open>sorted\<close> see what Python sees. Literals are
  written \<open>str ''...''\<close>.
\<close>

type_synonym pystr = "nat list"

definition str :: "string \<Rightarrow> pystr" where
  "str s = map of_char s"

definition NL :: nat where "NL = 10"
definition SP :: nat where "SP = 32"
definition HASH :: nat where "HASH = 35"
definition EQ :: nat where "EQ = 61"

text \<open>
  \<open>str.isspace\<close> for one code point: the characters \<open>str.strip()\<close> removes when it
  is called without an argument.
\<close>

definition isspace :: "nat \<Rightarrow> bool" where
  "isspace c \<longleftrightarrow>
     (9 \<le> c \<and> c \<le> 13) \<or> (28 \<le> c \<and> c \<le> 32) \<or> c = 133 \<or> c = 160 \<or> c = 5760 \<or>
     (8192 \<le> c \<and> c \<le> 8202) \<or> c = 8232 \<or> c = 8233 \<or> c = 8239 \<or> c = 8287 \<or> c = 12288"

definition lstrip :: "pystr \<Rightarrow> pystr" where
  "lstrip s = dropWhile isspace s"

definition rstrip :: "pystr \<Rightarrow> pystr" where
  "rstrip s = rev (dropWhile isspace (rev s))"

definition strip :: "pystr \<Rightarrow> pystr" where
  "strip s = rstrip (lstrip s)"

definition startswith :: "pystr \<Rightarrow> pystr \<Rightarrow> bool" where
  "startswith s p = prefix p s"

definition endswith :: "pystr \<Rightarrow> pystr \<Rightarrow> bool" where
  "endswith s p = suffix p s"

text \<open>The slice \<open>s[3:-3]\<close>: the characters at the indices \<open>3 \<le> i < len(s) - 3\<close>.\<close>

definition slice_3_m3 :: "pystr \<Rightarrow> pystr" where
  "slice_3_m3 s = drop 3 (take (length s - 3) s)"

text \<open>\<open>sep.join(parts)\<close>.\<close>

fun join :: "pystr \<Rightarrow> pystr list \<Rightarrow> pystr" where
  "join sep [] = []"
| "join sep [x] = x"
| "join sep (x # y # ys) = x @ sep @ join sep (y # ys)"

section \<open>The separator pattern\<close>

text \<open>
  \<open>re.compile(r'^# ={10,} (.+?) ={10,}$', re.MULTILINE)\<close>, as a backtracking matcher.
  Each quantifier lists its alternatives in the order the engine tries them, and
  \<open>first_match\<close> takes the first alternative on which the rest of the pattern matches.
\<close>

fun first_match :: "('a \<Rightarrow> 'b option) \<Rightarrow> 'a list \<Rightarrow> 'b option" where
  "first_match k [] = None"
| "first_match k (x # xs) = (case k x of Some r \<Rightarrow> Some r | None \<Rightarrow> first_match k xs)"

text \<open>\<open>$\<close> under \<open>re.MULTILINE\<close>: at the end of the string or just before a newline.\<close>

definition at_eol :: "pystr \<Rightarrow> bool" where
  "at_eol s = (case s of [] \<Rightarrow> True | c # _ \<Rightarrow> c = NL)"

text \<open>
  \<open>={10,}\<close>, greedy: what is left of the input after \<open>k\<close> equals signs, for every
  \<open>k \<ge> 10\<close> the input allows, the longest run first.
\<close>

definition eq_run :: "pystr \<Rightarrow> pystr list" where
  "eq_run s = map (\<lambda>k. drop k s) (rev [10 ..< Suc (length (takeWhile (\<lambda>c. c = EQ) s))])"

text \<open>
  \<open>(.+?)\<close>, lazy: the group and what is left after it, the shortest group first;
  \<open>.\<close> matches every character but the newline.
\<close>

definition dot_plus_lazy :: "pystr \<Rightarrow> (pystr \<times> pystr) list" where
  "dot_plus_lazy s =
     map (\<lambda>j. (take j s, drop j s)) [1 ..< Suc (length (takeWhile (\<lambda>c. c \<noteq> NL) s))]"

text \<open>The end of the pattern, \<open> ={10,}$\<close>: what is left after the match.\<close>

definition tail_match :: "pystr \<Rightarrow> pystr option" where
  "tail_match s =
     (case s of
        [] \<Rightarrow> None
      | c # t \<Rightarrow>
          if c = SP then first_match (\<lambda>r. if at_eol r then Some r else None) (eq_run t)
          else None)"

text \<open>\<open> (.+?) ={10,}$\<close>: the group and what is left after the match.\<close>

definition group_match :: "pystr \<Rightarrow> (pystr \<times> pystr) option" where
  "group_match s =
     (case s of
        [] \<Rightarrow> None
      | c # t \<Rightarrow>
          if c = SP
          then first_match (\<lambda>(g, r). map_option (Pair g) (tail_match r)) (dot_plus_lazy t)
          else None)"

text \<open>
  The whole pattern at a position where \<open>^\<close> holds: the captured group and what is left
  of the input after the match, or \<open>None\<close> when the pattern does not match there.
\<close>

definition sep_match :: "pystr \<Rightarrow> (pystr \<times> pystr) option" where
  "sep_match s =
     (case s of
        h # c # t \<Rightarrow> if h = HASH \<and> c = SP then first_match group_match (eq_run t) else None
      | _ \<Rightarrow> None)"

text \<open>
  \<open>pattern.split(content)\<close> with one capturing group. The scan goes through the
  string from left to right: \<open>bol\<close> says whether \<open>^\<close> holds at the current position
  (the start of the string, or just after a newline), \<open>cur\<close> is the text read since the
  last match. At a match the text before it and the group are emitted and the scan goes
  on after the match; the last piece is emitted at the end of the string. A match of this
  pattern is never empty, so the scan always moves on.
\<close>

function (sequential) split_scan :: "bool \<Rightarrow> pystr \<Rightarrow> pystr \<Rightarrow> pystr list" where
  "split_scan bol cur [] = [cur]"
| "split_scan bol cur (c # cs) =
     (case (if bol then sep_match (c # cs) else None) of
        Some (g, r) \<Rightarrow> cur # g # split_scan False [] r
      | None \<Rightarrow> split_scan (c = NL) (cur @ [c]) cs)"
  by pat_completeness auto
termination
proof -
  have mem1: "first_match k xs = Some r \<Longrightarrow> \<exists>x \<in> set xs. k x = Some r"
    for k :: "pystr \<Rightarrow> pystr option" and xs r
    by (induction xs) (auto split: option.splits)
  have mem2: "first_match k xs = Some r \<Longrightarrow> \<exists>x \<in> set xs. k x = Some r"
    for k :: "pystr \<Rightarrow> (pystr \<times> pystr) option" and xs r
    by (induction xs) (auto split: option.splits)
  have mem3: "first_match k xs = Some r \<Longrightarrow> \<exists>x \<in> set xs. k x = Some r"
    for k :: "pystr \<times> pystr \<Rightarrow> (pystr \<times> pystr) option" and xs r
    by (induction xs) (auto split: option.splits)
  have run: "r \<in> set (eq_run s) \<Longrightarrow> length r \<le> length s" for r s
    by (auto simp: eq_run_def)
  have lazy: "(g, r) \<in> set (dot_plus_lazy s) \<Longrightarrow> length r \<le> length s" for g r s
    by (auto simp: dot_plus_lazy_def)
  have tail: "length r < length s" if a: "tail_match s = Some r" for s r
  proof -
    from a obtain t where s: "s = SP # t"
      by (auto simp: tail_match_def split: list.splits if_splits)
    with a have "first_match (\<lambda>r. if at_eol r then Some r else None) (eq_run t) = Some r"
      by (simp add: tail_match_def)
    then have "r \<in> set (eq_run t)"
      by (auto dest!: mem1 split: if_splits)
    then show ?thesis using s by (auto dest: run)
  qed
  have grp: "length r < length s" if a: "group_match s = Some (g, r)" for s g r
  proof -
    from a obtain t where s: "s = SP # t"
      by (auto simp: group_match_def split: list.splits if_splits)
    with a have "first_match (\<lambda>(g, r). map_option (Pair g) (tail_match r))
        (dot_plus_lazy t) = Some (g, r)"
      by (simp add: group_match_def)
    then obtain g' r' where "(g', r') \<in> set (dot_plus_lazy t)" "tail_match r' = Some r"
      by (auto dest!: mem3)
    then show ?thesis using s by (auto dest!: lazy tail)
  qed
  have shorter: "length r < length s" if a: "sep_match s = Some (g, r)" for s g r
  proof -
    from a obtain t where s: "s = HASH # SP # t"
      by (auto simp: sep_match_def split: list.splits if_splits)
    with a have "first_match group_match (eq_run t) = Some (g, r)"
      by (simp add: sep_match_def)
    then obtain r' where "r' \<in> set (eq_run t)" "group_match r' = Some (g, r)"
      by (auto dest!: mem2)
    then show ?thesis using s by (auto dest!: run grp)
  qed
  show ?thesis
    by (relation "measure (\<lambda>(bol, cur, s). length s)")
      (auto split: if_splits dest: shorter)
qed

definition re_split :: "pystr \<Rightarrow> pystr list" where
  "re_split content = split_scan True [] content"

section \<open>The Splitter\<close>

text \<open>
  A \<open>Dict[str, str]\<close> is an association list in insertion order with one pair for each
  key; \<open>files[k] = v\<close> is \<open>AList.update k v files\<close>, which replaces the value where the key
  is and appends the pair where it is not.
\<close>

type_synonym pydict = "(pystr \<times> pystr) list"

definition triple_dq :: pystr where "triple_dq = str ''\"\"\"''"
definition triple_sq :: pystr where "triple_sq = [39, 39, 39]"

text \<open>Lines 64 to 70: the content of a section, trimmed and with one pair of triple quotes removed.\<close>

definition clean_content :: "pystr \<Rightarrow> pystr" where
  "clean_content section =
     (let file_content = strip section in
      if startswith file_content triple_dq \<and> endswith file_content triple_dq
      then strip (slice_3_m3 file_content)
      else if startswith file_content triple_sq \<and> endswith file_content triple_sq
      then strip (slice_3_m3 file_content)
      else file_content)"

text \<open>The loop \<open>for i in range(1, len(sections), 2)\<close>, from index \<open>i\<close> on.\<close>

function parse_loop :: "pystr list \<Rightarrow> nat \<Rightarrow> pydict \<Rightarrow> pydict" where
  "parse_loop sections i files =
     (if i < length sections
      then (if i + 1 < length sections
            then parse_loop sections (i + 2)
                   (AList.update (strip (sections ! i)) (clean_content (sections ! (i + 1))) files)
            else parse_loop sections (i + 2) files)
      else files)"
  by pat_completeness auto
termination
  by (relation "measure (\<lambda>(sections, i, files). length sections - i)") auto

definition parse_spec_file :: "pystr \<Rightarrow> pydict" where
  "parse_spec_file content = parse_loop (re_split content) 1 []"

text \<open>The same loop over the list that is left from index \<open>i\<close> on, used in the proofs.\<close>

fun parse_pairs :: "pystr list \<Rightarrow> pydict \<Rightarrow> pydict" where
  "parse_pairs (p # c # rest) files =
     parse_pairs rest (AList.update (strip p) (clean_content c) files)"
| "parse_pairs _ files = files"

text \<open>
  The pairs \<open>(sections[i], sections[i + 1])\<close> the loop visits, in document order, for
  the list of sections from index 1 on: the group of each separator line and the text
  between that line and the next separator line.
\<close>

fun blocks :: "pystr list \<Rightarrow> (pystr \<times> pystr) list" where
  "blocks (p # c # rest) = (p, c) # blocks rest"
| "blocks _ = []"

section \<open>The Composer\<close>

definition separator :: "pystr \<Rightarrow> pystr" where
  "separator filepath =
     str ''# '' @ replicate 20 EQ @ str '' '' @ filepath @ str '' '' @ replicate 20 EQ"

fun content_parts :: "(pystr \<times> pystr) list \<Rightarrow> pystr list" where
  "content_parts [] = []"
| "content_parts ((filepath, file_content) # rest) =
     separator filepath # file_content # [] # content_parts rest"

text \<open>\<open>sorted(files.items())\<close> compares the pairs, paths first, by code points.\<close>

definition generate_spec_content :: "pydict \<Rightarrow> pystr" where
  "generate_spec_content files = join [NL] (content_parts (sort files))"

section \<open>Paths\<close>

text \<open>
  A \<open>pathlib\<close> path on a POSIX system: a root (\<open>''\<close>, \<open>/\<close> or \<open>//\<close>) and the list of
  its components.
\<close>

record pypath =
  root :: pystr
  parts :: "pystr list"

fun split_on :: "nat \<Rightarrow> pystr \<Rightarrow> pystr list" where
  "split_on d [] = [[]]"
| "split_on d (c # cs) =
     (if c = d then [] # split_on d cs
      else (case split_on d cs of [] \<Rightarrow> [[c]] | x # xs \<Rightarrow> (c # x) # xs))"

text \<open>\<open>Path(s)\<close>: empty and \<open>.\<close> components are dropped; exactly two leading slashes are kept.\<close>

definition Path :: "pystr \<Rightarrow> pypath" where
  "Path s =
     \<lparr>root = (if startswith s (str ''//'') \<and> \<not> startswith s (str ''///'') then str ''//''
              else if startswith s (str ''/'') then str ''/'' else []),
      parts = filter (\<lambda>c. c \<noteq> [] \<and> c \<noteq> str ''.'') (split_on 47 s)\<rparr>"

text \<open>\<open>base / s\<close>: a rooted right operand replaces the left one.\<close>

definition joinpath :: "pypath \<Rightarrow> pystr \<Rightarrow> pypath" where
  "joinpath base s =
     (if root (Path s) \<noteq> [] then Path s
      else \<lparr>root = root base, parts = parts base @ parts (Path s)\<rparr>)"

definition path_str :: "pypath \<Rightarrow> pystr" where
  "path_str p =
     (if root p = [] \<and> parts p = [] then str ''.'' else root p @ join (str ''/'') (parts p))"

definition path_name :: "pypath \<Rightarrow> pystr" where
  "path_name p = (if parts p = [] then [] else last (parts p))"

definition parent :: "pypath \<Rightarrow> pypath" where
  "parent p = p\<lparr>parts := butlast (parts p)\<rparr>"

datatype error = ValueError | PermissionError | FileExistsError | IsADirectoryError
  | FileNotFoundError

definition relative_to :: "pypath \<Rightarrow> pypath \<Rightarrow> error + pypath" where
  "relative_to p base =
     (if root p = root base \<and> prefix (parts base) (parts p)
      then Inr \<lparr>root = [], parts = drop (length (parts base)) (parts p)\<rparr>
      else Inl ValueError)"

section \<open>The Scanner\<close>

definition skip_patterns :: "pystr list" where
  "skip_patterns =
     [str ''__pycache__'', str ''.git'', str ''.env'', str ''venv'', str ''node_modules'',
      str ''.pytest_cache'', str ''*.pyc'', str ''*.log'', str ''.DS_Store'']"

text \<open>
  \<open>pattern in str(path)\<close> is a substring test on the whole path;
  \<open>and\<close> binds tighter than \<open>or\<close>.
\<close>

definition should_skip :: "pypath \<Rightarrow> bool" where
  "should_skip path =
     list_ex (\<lambda>pattern. sublist pattern (path_str path) \<or>
                (startswith (path_name path) (str ''.'') \<and> path_name path \<noteq> str ''.env.example''))
       skip_patterns"

text \<open>
  What \<open>project_path.rglob('*')\<close> finds: for each entry its components below the
  project directory and what it is. For a regular file the outcome of
  \<open>read_text(encoding='utf-8')\<close> is part of the entry: the text, a decoding failure, or a
  refusal of the operating system.
\<close>

datatype read_result = Text pystr | Undecodable | Unreadable

datatype entry = Directory | RegularFile read_result

datatype message = Added pystr | SkippedBinary pystr

record scan_state =
  scan_files :: pydict
  scan_printed :: "message list"

fun scan_loop :: "pypath \<Rightarrow> (pystr list \<times> entry) list \<Rightarrow> scan_state \<Rightarrow> error + scan_state" where
  "scan_loop project_path [] st = Inr st"
| "scan_loop project_path ((rel, e) # rest) st =
     (let file_path = \<lparr>root = root project_path, parts = parts project_path @ rel\<rparr> in
      case e of
        Directory \<Rightarrow> scan_loop project_path rest st
      | RegularFile r \<Rightarrow>
          if should_skip file_path then scan_loop project_path rest st
          else
            (case relative_to file_path project_path of
               Inl _ \<Rightarrow> scan_loop project_path rest st
             | Inr relative_path \<Rightarrow>
                 (case r of
                    Text content \<Rightarrow>
                      scan_loop project_path rest
                        (st\<lparr>scan_files := AList.update (path_str relative_path) content (scan_files st),
                            scan_printed := scan_printed st @ [Added (path_str relative_path)]\<rparr>)
                  | Undecodable \<Rightarrow>
                      scan_loop project_path rest
                        (st\<lparr>scan_printed := scan_printed st @ [SkippedBinary (path_str relative_path)]\<rparr>)
                  | Unreadable \<Rightarrow> Inl PermissionError)))"

definition scan_directory ::
  "pystr \<Rightarrow> (pystr list \<times> entry) list \<Rightarrow> error + scan_state" where
  "scan_directory project_dir listing =
     scan_loop (Path project_dir) listing \<lparr>scan_files = [], scan_printed = []\<rparr>"

section \<open>The Materializer\<close>

text \<open>
  The file system: what is at each path. A regular file has its text and its permission
  bits. A new file gets the bits \<open>0o666\<close> without those of the process's umask.
\<close>

datatype node = Dir | File pystr "12 word"

type_synonym filesystem = "pypath \<Rightarrow> node option"

definition mode_of :: "filesystem \<Rightarrow> pypath \<Rightarrow> 12 word option" where
  "mode_of fs p = (case fs p of Some (File _ m) \<Rightarrow> Some m | _ \<Rightarrow> None)"

definition default_mode :: "12 word \<Rightarrow> 12 word" where
  "default_mode umask = and 438 (not umask)"

text \<open>The path and its ancestors below the root, the outermost first.\<close>

definition ancestors :: "pypath \<Rightarrow> pypath list" where
  "ancestors p = map (\<lambda>k. p\<lparr>parts := take k (parts p)\<rparr>) [1 ..< Suc (length (parts p))]"

text \<open>\<open>mkdir(parents=True, exist_ok=True)\<close>: a regular file in the way is an error.\<close>

fun mkdirs :: "pypath list \<Rightarrow> filesystem \<Rightarrow> error + filesystem" where
  "mkdirs [] fs = Inr fs"
| "mkdirs (d # ds) fs =
     (case fs d of
        Some (File _ _) \<Rightarrow> Inl FileExistsError
      | _ \<Rightarrow> mkdirs ds (fs(d \<mapsto> Dir)))"

definition write_text :: "12 word \<Rightarrow> pypath \<Rightarrow> pystr \<Rightarrow> filesystem \<Rightarrow> error + filesystem" where
  "write_text umask p content fs =
     (if parts p = [] then Inl IsADirectoryError
      else case fs p of
        Some Dir \<Rightarrow> Inl IsADirectoryError
      | Some (File _ m) \<Rightarrow> Inr (fs(p \<mapsto> File content m))
      | None \<Rightarrow> Inr (fs(p \<mapsto> File content (default_mode umask))))"

definition chmod :: "pypath \<Rightarrow> 12 word \<Rightarrow> filesystem \<Rightarrow> error + filesystem" where
  "chmod p m fs =
     (case fs p of
        Some (File content _) \<Rightarrow> Inr (fs(p \<mapsto> File content m))
      | Some Dir \<Rightarrow> Inr fs
      | None \<Rightarrow> Inl FileNotFoundError)"

text \<open>The body of the loop of lines 131 to 143, for one entry of the dictionary.\<close>

definition create_entry ::
  "12 word \<Rightarrow> pypath \<Rightarrow> pystr \<times> pystr \<Rightarrow> filesystem \<Rightarrow> error + filesystem" where
  "create_entry umask base_path kv fs =
     (let file_path = joinpath base_path (fst kv) in
      case mkdirs (ancestors (parent file_path)) fs of
        Inl e \<Rightarrow> Inl e
      | Inr fs1 \<Rightarrow>
          (case write_text umask file_path (snd kv) fs1 of
             Inl e \<Rightarrow> Inl e
           | Inr fs2 \<Rightarrow>
               if endswith (fst kv) (str ''.sh'') then chmod file_path 493 fs2 else Inr fs2))"

fun create_loop ::
  "12 word \<Rightarrow> pypath \<Rightarrow> pydict \<Rightarrow> filesystem \<Rightarrow> error + filesystem" where
  "create_loop umask base_path [] fs = Inr fs"
| "create_loop umask base_path (kv # rest) fs =
     (case create_entry umask base_path kv fs of
        Inl e \<Rightarrow> Inl e
      | Inr fs' \<Rightarrow> create_loop umask base_path rest fs')"

definition create_directory_structure ::
  "12 word \<Rightarrow> pydict \<Rightarrow> pystr \<Rightarrow> filesystem \<Rightarrow> error + filesystem" where
  "create_directory_structure umask files output_dir fs =
     create_loop umask (Path output_dir) files fs"

section \<open>The separator pattern on a line\<close>

lemma first_match_all_None:
  "(\<And>x. x \<in> set xs \<Longrightarrow> k x = None) \<Longrightarrow> first_match k xs = None"
  by (induction xs) auto

lemma first_match_append:
  "first_match k (xs @ ys) =
     (case first_match k xs of Some r \<Rightarrow> Some r | None \<Rightarrow> first_match k ys)"
  by (induction xs) (auto split: option.splits)

lemma first_match_map: "first_match k (map f xs) = first_match (\<lambda>x. k (f x)) xs"
  by (induction xs) (auto split: option.splits)

lemma first_match_cong:
  "(\<And>x. x \<in> set xs \<Longrightarrow> k x = k' x) \<Longrightarrow> first_match k xs = first_match k' xs"
  by (induction xs) (auto split: option.splits)

lemma first_match_map_option:
  "first_match (\<lambda>x. map_option h (k x)) xs = map_option h (first_match k xs)"
  by (induction xs) (auto split: option.splits)

lemma takeWhile_stop: "\<not> P y \<Longrightarrow> takeWhile P (xs @ y # ys) = takeWhile P xs"
  by (induction xs) auto

lemma dropWhile_stop: "\<not> P y \<Longrightarrow> dropWhile P (xs @ y # ys) = dropWhile P xs @ y # ys"
  by (induction xs) auto

lemma at_eol_simps: "at_eol []" "at_eol (c # s) \<longleftrightarrow> c = NL"
  by (simp_all add: at_eol_def)

lemma at_eol_local: "NL \<notin> set x \<Longrightarrow> at_eol (x @ NL # rest) = at_eol x"
  by (cases x) (auto simp: at_eol_simps)

lemma chars_distinct:
  "EQ \<noteq> NL" "EQ \<noteq> SP" "SP \<noteq> NL" "SP \<noteq> EQ" "NL \<noteq> EQ" "NL \<noteq> SP" "NL \<noteq> HASH" "HASH \<noteq> NL"
  by (simp_all add: EQ_def NL_def SP_def HASH_def)

lemma first_match_eq_run:
  assumes "\<And>r. r \<noteq> [] \<Longrightarrow> hd r = EQ \<Longrightarrow> k r = None"
  shows "first_match k (eq_run t) =
     (if 10 \<le> length (takeWhile (\<lambda>c. c = EQ) t) then k (dropWhile (\<lambda>c. c = EQ) t) else None)"
proof (cases "10 \<le> length (takeWhile (\<lambda>c. c = EQ) t)")
  case False
  then show ?thesis by (simp add: eq_run_def)
next
  case True
  let ?n = "length (takeWhile (\<lambda>c. c = EQ) t)"
  have run: "eq_run t = drop ?n t # map (\<lambda>k. drop k t) (rev [10 ..< ?n])"
    using True by (simp add: eq_run_def)
  have "k (drop j t) = None" if "j \<in> set (rev [10 ..< ?n])" for j
  proof -
    from that have j: "j < ?n" by simp
    also have "?n \<le> length t" by (rule length_takeWhile_le)
    finally have jl: "j < length t" .
    have "takeWhile (\<lambda>c. c = EQ) t ! j \<in> set (takeWhile (\<lambda>c. c = EQ) t)"
      using j by (rule nth_mem)
    then have "takeWhile (\<lambda>c. c = EQ) t ! j = EQ" by (auto dest: set_takeWhileD)
    then have "t ! j = EQ" using j by (simp add: takeWhile_nth)
    then have "hd (drop j t) = EQ" using jl by (simp add: hd_drop_conv_nth)
    moreover have "drop j t \<noteq> []" using jl by simp
    ultimately show ?thesis by (rule assms [rotated])
  qed
  then have "first_match k (map (\<lambda>k. drop k t) (rev [10 ..< ?n])) = None"
    by (intro first_match_all_None) auto
  then show ?thesis
    using True by (simp add: run dropWhile_eq_drop split: option.splits)
qed

lemma tail_match_eq:
  "tail_match s =
     (case s of
        [] \<Rightarrow> None
      | c # t \<Rightarrow>
          if c = SP \<and> 10 \<le> length (takeWhile (\<lambda>c. c = EQ) t) \<and> at_eol (dropWhile (\<lambda>c. c = EQ) t)
          then Some (dropWhile (\<lambda>c. c = EQ) t) else None)"
proof (cases s)
  case Nil
  show ?thesis unfolding Nil by (simp add: tail_match_def)
next
  case (Cons c t)
  have k: "(if at_eol r then Some r else None) = None" if "r \<noteq> []" "hd r = EQ" for r
    using that by (cases r) (simp_all add: at_eol_simps chars_distinct)
  have fm: "first_match (\<lambda>r. if at_eol r then Some r else None) (eq_run t) =
     (if 10 \<le> length (takeWhile (\<lambda>c. c = EQ) t)
      then (if at_eol (dropWhile (\<lambda>c. c = EQ) t) then Some (dropWhile (\<lambda>c. c = EQ) t) else None)
      else None)"
    by (rule first_match_eq_run) (rule k)
  show ?thesis unfolding Cons by (simp add: tail_match_def fm)
qed

lemma group_match_not_SP: "r \<noteq> [] \<Longrightarrow> hd r \<noteq> SP \<Longrightarrow> group_match r = None"
  by (cases r) (auto simp: group_match_def)

lemma sep_match_eq:
  "sep_match s =
     (case s of
        h # c # t \<Rightarrow>
          if h = HASH \<and> c = SP \<and> 10 \<le> length (takeWhile (\<lambda>c. c = EQ) t)
          then group_match (dropWhile (\<lambda>c. c = EQ) t) else None
      | _ \<Rightarrow> None)"
proof -
  have k: "group_match r = None" if "r \<noteq> []" "hd r = EQ" for r
    using that by (intro group_match_not_SP) (simp_all add: chars_distinct)
  have fm: "first_match group_match (eq_run t) =
     (if 10 \<le> length (takeWhile (\<lambda>c. c = EQ) t)
      then group_match (dropWhile (\<lambda>c. c = EQ) t) else None)" for t
    by (rule first_match_eq_run) (rule k)
  show ?thesis
  proof (cases s)
    case Nil
    show ?thesis unfolding Nil by (simp add: sep_match_def)
  next
    case (Cons h s')
    show ?thesis
    proof (cases s')
      case Nil
      show ?thesis unfolding Cons Nil by (simp add: sep_match_def)
    next
      case (Cons c t)
      show ?thesis unfolding \<open>s = h # s'\<close> Cons by (simp add: sep_match_def fm)
    qed
  qed
qed

lemma not_at_eol_dropWhile:
  "NL \<notin> set t \<Longrightarrow> \<not> at_eol (dropWhile (\<lambda>c. c = EQ) (t @ SP # rest))"
proof (induction t)
  case Nil
  show ?case by (simp add: at_eol_simps chars_distinct)
next
  case (Cons a t)
  then show ?case by (cases "a = EQ") (simp_all add: at_eol_simps)
qed

lemma tail_match_fail:
  assumes "u \<noteq> []" "NL \<notin> set u"
  shows "tail_match (u @ SP # rest) = None"
proof -
  from assms(1) obtain c t where u: "u = c # t" by (cases u) auto
  with assms(2) have "\<not> at_eol (dropWhile (\<lambda>c. c = EQ) (t @ SP # rest))"
    by (intro not_at_eol_dropWhile) simp
  then show ?thesis
    unfolding u by (subst tail_match_eq) simp
qed

lemma eq_run_prefix:
  assumes "at_eol r"
  shows "takeWhile (\<lambda>c. c = EQ) (replicate m EQ @ r) = replicate m EQ"
    and "dropWhile (\<lambda>c. c = EQ) (replicate m EQ @ r) = r"
proof -
  have t: "takeWhile (\<lambda>c. c = EQ) r = []" and d: "dropWhile (\<lambda>c. c = EQ) r = r"
    using assms by (cases r; simp add: at_eol_simps chars_distinct)+
  have "takeWhile (\<lambda>c. c = EQ) (replicate m EQ @ r) = replicate m EQ @ takeWhile (\<lambda>c. c = EQ) r"
    by (rule takeWhile_append2) simp
  then show "takeWhile (\<lambda>c. c = EQ) (replicate m EQ @ r) = replicate m EQ"
    by (simp only: t append_Nil2)
  have "dropWhile (\<lambda>c. c = EQ) (replicate m EQ @ r) = dropWhile (\<lambda>c. c = EQ) r"
    by (rule dropWhile_append2) simp
  then show "dropWhile (\<lambda>c. c = EQ) (replicate m EQ @ r) = r"
    by (simp only: d)
qed

lemma tail_match_ok:
  assumes "10 \<le> m" "at_eol r"
  shows "tail_match (SP # replicate m EQ @ r) = Some r"
  using assms by (subst tail_match_eq) (simp add: eq_run_prefix [OF assms(2)])

lemma upt_split3:
  assumes "i \<le> j" "j < k"
  shows "[i ..< k] = [i ..< j] @ j # [Suc j ..< k]"
proof -
  from assms(2) obtain d where k: "k = j + d" by (auto simp: less_iff_Suc_add)
  have "[i ..< j + d] = [i ..< j] @ [j ..< j + d]" using assms(1) by (rule upt_add_eq_append)
  moreover have "[j ..< k] = j # [Suc j ..< k]" using assms(2) by (rule upt_conv_Cons)
  ultimately show ?thesis by (simp add: k)
qed

lemma group_match_line:
  assumes g: "g \<noteq> []" "NL \<notin> set g" and m: "10 \<le> m" and r: "at_eol r"
  shows "group_match (SP # g @ SP # replicate m EQ @ r) = Some (g, r)"
proof -
  let ?t = "g @ SP # replicate m EQ @ r"
  let ?k = "\<lambda>(g, r). map_option (Pair g) (tail_match r)"
  let ?f = "\<lambda>j. (take j ?t, drop j ?t)"
  let ?d = "length (takeWhile (\<lambda>c. c \<noteq> NL) ?t)"
  have "takeWhile (\<lambda>c. c \<noteq> NL) ?t = g @ takeWhile (\<lambda>c. c \<noteq> NL) (SP # replicate m EQ @ r)"
    by (rule takeWhile_append2) (use g in auto)
  then have d: "length g < Suc ?d" by (simp add: chars_distinct)
  have g1: "1 \<le> length g" using g by (cases g) auto
  have split: "[1 ..< Suc ?d] = [1 ..< length g] @ length g # [Suc (length g) ..< Suc ?d]"
    using g1 d by (rule upt_split3)
  have early: "?k (?f j) = None" if "j \<in> set [1 ..< length g]" for j
  proof -
    from that have j: "j < length g" by simp
    then have "drop j ?t = drop j g @ SP # replicate m EQ @ r" by simp
    moreover have "tail_match (drop j g @ SP # replicate m EQ @ r) = None"
    proof (rule tail_match_fail)
      show "drop j g \<noteq> []" using j by simp
      show "NL \<notin> set (drop j g)" using g(2) by (auto dest: in_set_dropD)
    qed
    ultimately show ?thesis by simp
  qed
  have first: "first_match ?k (map ?f [1 ..< length g]) = None"
    by (rule first_match_all_None) (use early in auto)
  have tm: "tail_match (SP # replicate m EQ @ r) = Some r" using m r by (rule tail_match_ok)
  have "first_match ?k (dot_plus_lazy ?t) = Some (g, r)"
    unfolding dot_plus_lazy_def split map_append first_match_append first list.map
    by (simp add: tm del: upt_Suc)
  then show ?thesis by (simp add: group_match_def)
qed

lemma sep_match_line:
  assumes "10 \<le> n" "g \<noteq> []" "NL \<notin> set g" "10 \<le> m" "at_eol r"
  shows "sep_match (HASH # SP # replicate n EQ @ SP # g @ SP # replicate m EQ @ r) = Some (g, r)"
proof -
  let ?rest = "SP # g @ SP # replicate m EQ @ r"
  have "takeWhile (\<lambda>c. c = EQ) (replicate n EQ @ ?rest) =
      takeWhile (\<lambda>c. c = EQ) (replicate n EQ)"
    by (rule takeWhile_stop) (simp add: chars_distinct)
  then have tw: "takeWhile (\<lambda>c. c = EQ) (replicate n EQ @ ?rest) = replicate n EQ"
    by (simp add: takeWhile_replicate)
  have "dropWhile (\<lambda>c. c = EQ) (replicate n EQ @ ?rest) =
      dropWhile (\<lambda>c. c = EQ) (replicate n EQ) @ ?rest"
    by (rule dropWhile_stop) (simp add: chars_distinct)
  then have dw: "dropWhile (\<lambda>c. c = EQ) (replicate n EQ @ ?rest) = ?rest"
    by (simp add: dropWhile_replicate)
  show ?thesis
    using assms(1) group_match_line [OF assms(2-5)]
    by (subst sep_match_eq) (simp add: tw dw)
qed

lemma tail_match_local:
  assumes "NL \<notin> set l"
  shows "tail_match (l @ NL # rest) = map_option (\<lambda>r. r @ NL # rest) (tail_match l)"
proof (cases l)
  case Nil
  have "tail_match (NL # rest) = None" by (subst tail_match_eq) (simp add: chars_distinct)
  moreover have "tail_match [] = None" by (simp add: tail_match_def)
  ultimately show ?thesis unfolding Nil by simp
next
  case (Cons c t)
  have tw: "takeWhile (\<lambda>c. c = EQ) (t @ NL # rest) = takeWhile (\<lambda>c. c = EQ) t"
    by (rule takeWhile_stop) (simp add: chars_distinct)
  have dw: "dropWhile (\<lambda>c. c = EQ) (t @ NL # rest) = dropWhile (\<lambda>c. c = EQ) t @ NL # rest"
    by (rule dropWhile_stop) (simp add: chars_distinct)
  have ae: "at_eol (dropWhile (\<lambda>c. c = EQ) t @ NL # rest) = at_eol (dropWhile (\<lambda>c. c = EQ) t)"
    using assms by (intro at_eol_local) (auto simp: Cons dest: set_dropWhileD)
  have l: "tail_match (c # t @ NL # rest) =
      (if c = SP \<and> 10 \<le> length (takeWhile (\<lambda>c. c = EQ) t) \<and> at_eol (dropWhile (\<lambda>c. c = EQ) t)
       then Some (dropWhile (\<lambda>c. c = EQ) t @ NL # rest) else None)"
    by (subst tail_match_eq) (simp add: tw dw ae)
  have r: "tail_match (c # t) =
      (if c = SP \<and> 10 \<le> length (takeWhile (\<lambda>c. c = EQ) t) \<and> at_eol (dropWhile (\<lambda>c. c = EQ) t)
       then Some (dropWhile (\<lambda>c. c = EQ) t) else None)"
    by (subst tail_match_eq) simp
  show ?thesis unfolding Cons append_Cons l r by simp
qed

lemma takeWhile_no_NL: "NL \<notin> set t \<Longrightarrow> takeWhile (\<lambda>c. c \<noteq> NL) t = t"
  by (induction t) auto

lemma group_match_local:
  assumes "NL \<notin> set l"
  shows "group_match (l @ NL # rest) =
         map_option (\<lambda>(g, r). (g, r @ NL # rest)) (group_match l)"
proof (cases l)
  case Nil
  show ?thesis unfolding Nil by (simp add: group_match_def chars_distinct)
next
  case (Cons c t)
  from assms have t: "NL \<notin> set t" by (simp add: Cons)
  let ?k = "\<lambda>(g, r). map_option (Pair g) (tail_match r)"
  let ?H = "\<lambda>(g, r). (g, r @ NL # rest)"
  let ?js = "[1 ..< Suc (length t)]"
  have "takeWhile (\<lambda>c. c \<noteq> NL) (t @ NL # rest) = takeWhile (\<lambda>c. c \<noteq> NL) t"
    by (rule takeWhile_stop) simp
  then have d1: "takeWhile (\<lambda>c. c \<noteq> NL) (t @ NL # rest) = t"
    by (simp add: takeWhile_no_NL [OF t])
  have l1: "dot_plus_lazy (t @ NL # rest) = map (\<lambda>j. (take j t, drop j t @ NL # rest)) ?js"
    unfolding dot_plus_lazy_def d1 by (rule map_cong) auto
  have l2: "dot_plus_lazy t = map (\<lambda>j. (take j t, drop j t)) ?js"
    unfolding dot_plus_lazy_def takeWhile_no_NL [OF t] ..
  have step: "?k (take j t, drop j t @ NL # rest) = map_option ?H (?k (take j t, drop j t))" for j
  proof -
    have "NL \<notin> set (drop j t)" using t by (auto dest: in_set_dropD)
    from tail_match_local [OF this, of rest] show ?thesis
      by (cases "tail_match (drop j t)") simp_all
  qed
  have "first_match ?k (dot_plus_lazy (t @ NL # rest)) =
        first_match (\<lambda>j. map_option ?H (?k (take j t, drop j t))) ?js"
    unfolding l1 first_match_map by (rule first_match_cong) (rule step)
  also have "\<dots> = map_option ?H (first_match (\<lambda>j. ?k (take j t, drop j t)) ?js)"
    by (rule first_match_map_option)
  also have "first_match (\<lambda>j. ?k (take j t, drop j t)) ?js = first_match ?k (dot_plus_lazy t)"
    unfolding l2 first_match_map ..
  finally have fm: "first_match ?k (dot_plus_lazy (t @ NL # rest)) =
      map_option ?H (first_match ?k (dot_plus_lazy t))" .
  show ?thesis unfolding Cons append_Cons
    by (simp add: group_match_def fm)
qed

lemma sep_match_local:
  assumes "NL \<notin> set l"
  shows "sep_match (l @ NL # rest) = map_option (\<lambda>(g, r). (g, r @ NL # rest)) (sep_match l)"
proof (cases l)
  case Nil
  have "sep_match (NL # rest) = None"
    by (subst sep_match_eq) (simp add: chars_distinct split: list.splits)
  then show ?thesis unfolding Nil by (simp add: sep_match_def)
next
  case (Cons h l')
  show ?thesis
  proof (cases l')
    case Nil
    have "sep_match (h # NL # rest) = None"
      by (subst sep_match_eq) (simp add: chars_distinct)
    then show ?thesis unfolding Cons Nil by (simp add: sep_match_def)
  next
    case (Cons c t)
    from assms have t: "NL \<notin> set t" by (simp add: Cons \<open>l = h # l'\<close>)
    have tw: "takeWhile (\<lambda>c. c = EQ) (t @ NL # rest) = takeWhile (\<lambda>c. c = EQ) t"
      by (rule takeWhile_stop) (simp add: chars_distinct)
    have dw: "dropWhile (\<lambda>c. c = EQ) (t @ NL # rest) = dropWhile (\<lambda>c. c = EQ) t @ NL # rest"
      by (rule dropWhile_stop) (simp add: chars_distinct)
    have "NL \<notin> set (dropWhile (\<lambda>c. c = EQ) t)" using t by (auto dest: set_dropWhileD)
    note gm = group_match_local [OF this, of rest]
    have l: "sep_match (h # c # t @ NL # rest) =
        (if h = HASH \<and> c = SP \<and> 10 \<le> length (takeWhile (\<lambda>c. c = EQ) t)
         then map_option (\<lambda>(g, r). (g, r @ NL # rest)) (group_match (dropWhile (\<lambda>c. c = EQ) t))
         else None)"
      by (subst sep_match_eq) (simp add: tw dw gm)
    have r: "sep_match (h # c # t) =
        (if h = HASH \<and> c = SP \<and> 10 \<le> length (takeWhile (\<lambda>c. c = EQ) t)
         then group_match (dropWhile (\<lambda>c. c = EQ) t) else None)"
      by (subst sep_match_eq) simp
    show ?thesis unfolding \<open>l = h # l'\<close> Cons append_Cons l r by simp
  qed
qed

lemma split_scan_Cons_None:
  "(bol \<Longrightarrow> sep_match (c # cs) = None) \<Longrightarrow>
   split_scan bol cur (c # cs) = split_scan (c = NL) (cur @ [c]) cs"
  by (cases bol) simp_all

lemma split_scan_Cons_Some:
  "sep_match (c # cs) = Some (g, r) \<Longrightarrow>
   split_scan True cur (c # cs) = cur # g # split_scan False [] r"
  by simp

lemma sep_match_NL: "sep_match (NL # rest) = None"
  using sep_match_local [of "[]" rest] by (simp add: sep_match_def)

lemma split_on_nonempty: "split_on d c \<noteq> []"
  by (induction c) (auto split: list.splits)

lemma first_line_no_NL: "NL \<notin> set (hd (split_on NL c))"
  by (induction c) (auto split: list.splits)

lemma first_line_decomp: "\<exists>y. c @ NL # rest = hd (split_on NL c) @ NL # y"
  by (induction c) (auto split: list.splits simp: split_on_nonempty)

lemma first_line_end:
  "c = hd (split_on NL c) \<or> (\<exists>y. c = hd (split_on NL c) @ NL # y)"
  by (induction c) (auto split: list.splits simp: split_on_nonempty)

lemma sep_match_first_line:
  assumes "sep_match (hd (split_on NL c)) = None"
  shows "sep_match (c @ NL # rest) = None" and "sep_match c = None"
proof -
  obtain y where "c @ NL # rest = hd (split_on NL c) @ NL # y"
    using first_line_decomp by blast
  then show "sep_match (c @ NL # rest) = None"
    using sep_match_local [OF first_line_no_NL, of c y] assms by simp
  from first_line_end [of c] show "sep_match c = None"
  proof
    assume "c = hd (split_on NL c)"
    with assms show ?thesis by simp
  next
    assume "\<exists>y. c = hd (split_on NL c) @ NL # y"
    then obtain y where c: "c = hd (split_on NL c) @ NL # y" ..
    have "sep_match (hd (split_on NL c) @ NL # y) = None"
      using sep_match_local [OF first_line_no_NL, of c y] assms by simp
    with c show ?thesis by simp
  qed
qed

lemma split_scan_skip_content_gen:
  assumes "bol \<longrightarrow> sep_match (hd (split_on NL c)) = None"
    and "\<forall>l \<in> set (tl (split_on NL c)). sep_match l = None"
  shows "split_scan bol cur (c @ NL # rest) = split_scan True (cur @ c @ [NL]) rest"
  using assms
proof (induction c arbitrary: bol cur)
  case Nil
  show ?case by (simp add: split_scan_Cons_None sep_match_NL)
next
  case (Cons a c)
  show ?case
  proof (cases "a = NL")
    case True
    have "split_scan bol cur ((a # c) @ NL # rest) = split_scan True (cur @ [NL]) (c @ NL # rest)"
      unfolding True append_Cons by (rule split_scan_Cons_None [THEN trans]) (simp_all add: sep_match_NL)
    also have "\<dots> = split_scan True ((cur @ [NL]) @ c @ [NL]) rest"
    proof (rule Cons.IH)
      from Cons.prems(2) True show "True \<longrightarrow> sep_match (hd (split_on NL c)) = None"
        using split_on_nonempty [of NL c] by (cases "split_on NL c") auto
      from Cons.prems(2) True show "\<forall>l \<in> set (tl (split_on NL c)). sep_match l = None"
        using split_on_nonempty [of NL c] by (cases "split_on NL c") auto
    qed
    finally show ?thesis by (simp add: True)
  next
    case False
    have hd: "hd (split_on NL (a # c)) = a # hd (split_on NL c)"
      and tl: "tl (split_on NL (a # c)) = tl (split_on NL c)"
      using False split_on_nonempty [of NL c] by (cases "split_on NL c"; simp)+
    have "split_scan bol cur ((a # c) @ NL # rest) =
          split_scan (a = NL) (cur @ [a]) (c @ NL # rest)"
      unfolding append_Cons
    proof (rule split_scan_Cons_None)
      assume bol
      with Cons.prems(1) have "sep_match (hd (split_on NL (a # c))) = None" by simp
      from sep_match_first_line(1) [OF this, of rest]
      show "sep_match (a # c @ NL # rest) = None" by simp
    qed
    also have "\<dots> = split_scan True ((cur @ [a]) @ c @ [NL]) rest"
    proof (rule Cons.IH)
      show "a = NL \<longrightarrow> sep_match (hd (split_on NL c)) = None" using False by simp
      show "\<forall>l \<in> set (tl (split_on NL c)). sep_match l = None"
        using Cons.prems(2) unfolding tl .
    qed
    finally show ?thesis by simp
  qed
qed

lemma split_scan_skip_content:
  assumes "\<forall>l \<in> set (split_on NL c). sep_match l = None"
  shows "split_scan True cur (c @ NL # rest) = split_scan True (cur @ c @ [NL]) rest"
  using assms split_on_nonempty [of NL c]
  by (intro split_scan_skip_content_gen) (cases "split_on NL c"; simp)+

lemma split_scan_content_end_gen:
  assumes "bol \<longrightarrow> sep_match (hd (split_on NL c)) = None"
    and "\<forall>l \<in> set (tl (split_on NL c)). sep_match l = None"
  shows "split_scan bol cur c = [cur @ c]"
  using assms
proof (induction c arbitrary: bol cur)
  case Nil
  show ?case by simp
next
  case (Cons a c)
  show ?case
  proof (cases "a = NL")
    case True
    have "split_scan bol cur (a # c) = split_scan True (cur @ [NL]) c"
      unfolding True by (rule split_scan_Cons_None [THEN trans]) (simp_all add: sep_match_NL)
    also have "\<dots> = [(cur @ [NL]) @ c]"
    proof (rule Cons.IH)
      from Cons.prems(2) True show "True \<longrightarrow> sep_match (hd (split_on NL c)) = None"
        using split_on_nonempty [of NL c] by (cases "split_on NL c") auto
      from Cons.prems(2) True show "\<forall>l \<in> set (tl (split_on NL c)). sep_match l = None"
        using split_on_nonempty [of NL c] by (cases "split_on NL c") auto
    qed
    finally show ?thesis by (simp add: True)
  next
    case False
    have tl: "tl (split_on NL (a # c)) = tl (split_on NL c)"
      using False split_on_nonempty [of NL c] by (cases "split_on NL c"; simp)
    have "split_scan bol cur (a # c) = split_scan (a = NL) (cur @ [a]) c"
    proof (rule split_scan_Cons_None)
      assume bol
      with Cons.prems(1) have "sep_match (hd (split_on NL (a # c))) = None" by simp
      from sep_match_first_line(2) [OF this]
      show "sep_match (a # c) = None" .
    qed
    also have "\<dots> = [(cur @ [a]) @ c]"
    proof (rule Cons.IH)
      show "a = NL \<longrightarrow> sep_match (hd (split_on NL c)) = None" using False by simp
      show "\<forall>l \<in> set (tl (split_on NL c)). sep_match l = None"
        using Cons.prems(2) unfolding tl .
    qed
    finally show ?thesis by simp
  qed
qed

lemma split_scan_content_end:
  assumes "\<forall>l \<in> set (split_on NL c). sep_match l = None"
  shows "split_scan b cur (NL # c) = [cur @ NL # c]"
proof -
  have "split_scan b cur (NL # c) = split_scan True (cur @ [NL]) c"
    by (rule split_scan_Cons_None [THEN trans]) (simp_all add: sep_match_NL)
  also have "\<dots> = [(cur @ [NL]) @ c]"
    using assms split_on_nonempty [of NL c]
    by (intro split_scan_content_end_gen) (cases "split_on NL c"; simp)+
  finally show ?thesis by simp
qed

section \<open>Properties of the Splitter\<close>

lemma last_dropWhile: "dropWhile P xs \<noteq> [] \<Longrightarrow> last (dropWhile P xs) = last xs"
  by (induction xs) (auto split: if_splits)

lemma dropWhile_hd_id: "xs = [] \<or> \<not> P (hd xs) \<Longrightarrow> dropWhile P xs = xs"
  by (cases xs) auto

lemma strip_idem: "strip (strip s) = strip s"
proof -
  define a where "a = dropWhile isspace s"
  define b where "b = dropWhile isspace (rev a)"
  have s: "strip s = rev b"
    by (simp add: strip_def rstrip_def lstrip_def a_def b_def)
  have "dropWhile isspace (rev b) = rev b"
  proof (cases "b = []")
    case True
    then show ?thesis by simp
  next
    case False
    then have "last b = last (rev a)" unfolding b_def by (rule last_dropWhile)
    moreover from False have "a \<noteq> []" by (auto simp: b_def)
    ultimately have "last b = hd a" by (simp add: last_rev)
    moreover from \<open>a \<noteq> []\<close> have "\<not> isspace (hd a)"
      unfolding a_def by (rule hd_dropWhile)
    ultimately have "\<not> isspace (hd (rev b))" using False by (simp add: hd_rev)
    then show ?thesis by (intro dropWhile_hd_id) simp
  qed
  moreover have "dropWhile isspace b = b"
    unfolding b_def by (rule dropWhile_idem)
  ultimately have "strip (rev b) = rev b"
    by (simp add: strip_def rstrip_def lstrip_def)
  then show ?thesis by (simp only: s)
qed

lemma clean_content_trimmed: "strip (clean_content c) = clean_content c"
  by (simp add: clean_content_def Let_def strip_idem)

lemma parse_loop_pairs: "parse_loop sections i files = parse_pairs (drop i sections) files"
proof (induction sections i files rule: parse_loop.induct)
  case (1 sections i files)
  show ?case
  proof (cases "i < length sections")
    case False
    then show ?thesis by (simp add: parse_loop.simps [of sections i])
  next
    case True
    note lt = this
    show ?thesis
    proof (cases "i + 1 < length sections")
      case True
      then have d: "drop i sections = sections ! i # sections ! (i + 1) # drop (i + 2) sections"
        using lt by (simp add: Cons_nth_drop_Suc)
      show ?thesis
        using 1(1) [OF lt True] lt True
        by (subst parse_loop.simps) (simp add: d)
    next
      case False
      with lt have d: "drop i sections = [sections ! i]" "drop (i + 2) sections = []"
        by (auto simp: Cons_nth_drop_Suc [symmetric])
      show ?thesis
        using 1(2) [OF lt False] lt False
        by (subst parse_loop.simps) (simp add: d)
    qed
  qed
qed

lemma drop_1_tl: "drop (Suc 0) xs = tl xs"
  by (cases xs) simp_all

lemma parse_spec_file_pairs: "parse_spec_file content = parse_pairs (tl (re_split content)) []"
  unfolding parse_spec_file_def parse_loop_pairs One_nat_def drop_1_tl ..

lemma set_update_subset: "set (AList.update k v al) \<subseteq> insert (k, v) (set al)"
  by (induction al) auto

lemma parse_pairs_trimmed:
  "(\<And>k v. (k, v) \<in> set files \<Longrightarrow> strip k = k \<and> strip v = v) \<Longrightarrow>
   (k, v) \<in> set (parse_pairs ss files) \<Longrightarrow> strip k = k \<and> strip v = v"
proof (induction ss files rule: parse_pairs.induct)
  case (1 p c rest files)
  have "\<And>k v. (k, v) \<in> set (AList.update (strip p) (clean_content c) files) \<Longrightarrow>
      strip k = k \<and> strip v = v"
  proof -
    fix k v assume "(k, v) \<in> set (AList.update (strip p) (clean_content c) files)"
    then have "(k, v) \<in> set files \<or> (k = strip p \<and> v = clean_content c)"
      using set_update_subset by fastforce
    then show "strip k = k \<and> strip v = v"
      using 1(2) by (auto simp: strip_idem clean_content_trimmed)
  qed
  from 1(1) [OF this] 1(3) show ?case by simp
qed simp_all

lemma parse_pairs_map_of:
  "map_of (parse_pairs ss files) =
   map_of files ++ map_of (rev (map (\<lambda>(p, c). (strip p, clean_content c)) (blocks ss)))"
proof (induction ss files rule: parse_pairs.induct)
  case (1 p c rest files)
  have "map_of (parse_pairs (p # c # rest) files) =
        map_of (AList.update (strip p) (clean_content c) files) ++
        map_of (rev (map (\<lambda>(p, c). (strip p, clean_content c)) (blocks rest)))"
    by (simp add: 1)
  also have "\<dots> = map_of files ++
        map_of (rev (map (\<lambda>(p, c). (strip p, clean_content c)) (blocks (p # c # rest))))"
    by (rule ext) (simp add: map_add_def update_conv' split: option.splits)
  finally show ?case .
qed simp_all

lemma parse_blocks_last:
  assumes "blocks ss = xs @ (p, c) # ys"
    and "strip p \<notin> (\<lambda>b. strip (fst b)) ` set ys"
  shows "map_of (parse_pairs ss []) (strip p) = Some (clean_content c)"
proof -
  have "map_of (rev (map (\<lambda>(p, c). (strip p, clean_content c)) ys)) (strip p) = None"
    using assms(2) by (force simp: map_of_eq_None_iff image_iff)
  then show ?thesis
    by (simp add: parse_pairs_map_of assms(1) map_add_def split: option.splits)
qed

lemma lstrip_ws: "\<forall>x \<in> set a. isspace x \<Longrightarrow> lstrip (a @ c) = lstrip c"
  by (simp add: lstrip_def dropWhile_append2)

lemma rstrip_ws: "\<forall>x \<in> set b. isspace x \<Longrightarrow> rstrip (c @ b) = rstrip c"
  using dropWhile_append2 [of "rev b" isspace "rev c"] by (simp add: rstrip_def)

lemma lstrip_append:
  "\<not> (\<forall>x \<in> set c. isspace x) \<Longrightarrow> lstrip (c @ b) = lstrip c @ b"
  unfolding lstrip_def by (induction c) auto

lemma lstrip_all_ws: "\<forall>x \<in> set c. isspace x \<Longrightarrow> lstrip c = []"
  by (simp add: lstrip_def)

lemma rstrip_all_ws: "\<forall>x \<in> set c. isspace x \<Longrightarrow> rstrip c = []"
  by (simp add: rstrip_def)

lemma strip_ws:
  assumes a: "\<forall>x \<in> set a. isspace x" and b: "\<forall>x \<in> set b. isspace x"
  shows "strip (a @ c @ b) = strip c"
proof (cases "\<forall>x \<in> set c. isspace x")
  case True
  with b have "\<forall>x \<in> set (c @ b). isspace x" by auto
  then have "lstrip (c @ b) = []" by (rule lstrip_all_ws)
  moreover from True have "lstrip c = []" by (rule lstrip_all_ws)
  ultimately show ?thesis using a by (simp add: strip_def lstrip_ws)
next
  case False
  then have "lstrip (c @ b) = lstrip c @ b" by (rule lstrip_append)
  then show ?thesis using a b by (simp add: strip_def lstrip_ws rstrip_ws)
qed

lemma isspace_NL: "isspace NL"
  by (simp add: isspace_def NL_def)

lemma strip_NL: "strip (NL # c) = strip c"
  using strip_ws [of "[NL]" "[]" c] by (simp add: isspace_NL)

lemma length_triple: "length triple_dq = 3" "length triple_sq = 3"
  by (simp_all add: triple_dq_def triple_sq_def str_def)

lemma triple_differ: "\<not> prefix triple_dq (triple_sq @ s)"
  by (simp add: triple_dq_def triple_sq_def str_def)

lemma suffix_wrapped: "suffix q (q @ inner @ q)"
  by (intro suffix_appendI) simp

lemma slice_wrapped: "length q = 3 \<Longrightarrow> slice_3_m3 (q @ inner @ q) = inner"
  by (simp add: slice_3_m3_def)

lemma clean_content_wrapped:
  assumes "q = triple_dq \<or> q = triple_sq" and "strip t = q @ inner @ q"
  shows "clean_content t = strip inner"
  using assms(1)
proof
  assume q: "q = triple_dq"
  have "startswith (strip t) triple_dq" "endswith (strip t) triple_dq"
    by (simp_all add: assms(2) q startswith_def endswith_def suffix_wrapped)
  moreover have "slice_3_m3 (strip t) = inner"
    unfolding assms(2) by (rule slice_wrapped) (simp add: q length_triple)
  ultimately show ?thesis by (simp add: clean_content_def Let_def)
next
  assume q: "q = triple_sq"
  have "\<not> startswith (strip t) triple_dq"
    by (simp add: assms(2) q startswith_def triple_differ)
  moreover have "startswith (strip t) triple_sq" "endswith (strip t) triple_sq"
    by (simp_all add: assms(2) q startswith_def endswith_def suffix_wrapped)
  moreover have "slice_3_m3 (strip t) = inner"
    unfolding assms(2) by (rule slice_wrapped) (simp add: q length_triple)
  ultimately show ?thesis by (simp add: clean_content_def Let_def)
qed



lemma separator_eq:
  "separator p = HASH # SP # replicate 20 EQ @ SP # p @ SP # replicate 20 EQ"
  by (simp add: separator_def str_def HASH_def SP_def)

lemma sep_match_separator:
  assumes "p \<noteq> []" "NL \<notin> set p" "at_eol r"
  shows "sep_match (separator p @ r) = Some (p, r)"
proof -
  have "separator p @ r = HASH # SP # replicate 20 EQ @ SP # p @ SP # replicate 20 EQ @ r"
    by (simp only: separator_eq append_Cons append_assoc)
  moreover have "sep_match (HASH # SP # replicate 20 EQ @ SP # p @ SP # replicate 20 EQ @ r) =
      Some (p, r)"
    by (rule sep_match_line) (use assms in simp_all)
  ultimately show ?thesis by (simp only:)
qed

lemma split_scan_Some:
  "sep_match s = Some (g, r) \<Longrightarrow> split_scan True cur s = cur # g # split_scan False [] r"
  by (cases s) (simp_all add: sep_match_def)

lemma split_scan_block:
  assumes "p \<noteq> []" "NL \<notin> set p" "\<forall>l \<in> set (split_on NL c). sep_match l = None"
  shows "split_scan True cur (separator p @ NL # c @ NL # rest) =
         cur # p # split_scan True (NL # c @ [NL]) rest"
proof -
  have "sep_match (separator p @ NL # c @ NL # rest) = Some (p, NL # c @ NL # rest)"
    using assms(1,2) by (rule sep_match_separator) (simp add: at_eol_simps)
  then have "split_scan True cur (separator p @ NL # c @ NL # rest) =
      cur # p # split_scan False [] (NL # c @ NL # rest)"
    by (rule split_scan_Some)
  also have "split_scan False [] (NL # c @ NL # rest) = split_scan True [NL] (c @ NL # rest)"
    by (subst split_scan_Cons_None) simp_all
  also have "split_scan True [NL] (c @ NL # rest) = split_scan True ([NL] @ c @ [NL]) rest"
    using assms(3) by (rule split_scan_skip_content)
  finally show ?thesis by simp
qed

lemma split_scan_last_block:
  assumes "p \<noteq> []" "NL \<notin> set p" "\<forall>l \<in> set (split_on NL c). sep_match l = None"
  shows "split_scan True cur (separator p @ NL # c) = [cur, p, NL # c]"
proof -
  have "sep_match (separator p @ NL # c) = Some (p, NL # c)"
    using assms(1,2) by (rule sep_match_separator) (simp add: at_eol_simps)
  then have "split_scan True cur (separator p @ NL # c) =
      cur # p # split_scan False [] (NL # c)"
    by (rule split_scan_Some)
  also have "split_scan False [] (NL # c) = [[] @ NL # c]"
    using assms(3) by (rule split_scan_content_end)
  finally show ?thesis by simp
qed







text \<open>
  Claim C10. For every document, every key and every value of the mapping the Splitter
  returns is trimmed: it is equal to itself with the leading and trailing whitespace
  removed.
\<close>

theorem splitter_trims:
  "(k, v) \<in> set (parse_spec_file content) \<Longrightarrow> strip k = k \<and> strip v = v"
  unfolding parse_spec_file_pairs
  by (rule parse_pairs_trimmed [where files = "[]"]) simp_all

text \<open>
  Claim C8. In every document, a separator line whose trimmed path is on no later
  separator line gives the path its content in the mapping the Splitter returns: of the
  occurrences of a path, the last one in document order wins.
\<close>

theorem splitter_last_wins:
  assumes "blocks (tl (re_split content)) = xs @ (p, c) # ys"
    and "strip p \<notin> (\<lambda>b. strip (fst b)) ` set ys"
  shows "map_of (parse_spec_file content) (strip p) = Some (clean_content c)"
  unfolding parse_spec_file_pairs using assms by (rule parse_blocks_last)

text \<open>
  Claim C6. When the content block of the last occurrence of a path, after trimming, is
  \<open>q @ inner @ q\<close> with \<open>q\<close> one of the two triple-quote delimiters, the
  Splitter binds the path to \<open>inner\<close>, trimmed: one pair of delimiters is removed
  and the result is trimmed again.
\<close>

theorem splitter_unwraps_triple_quotes:
  assumes "q = triple_dq \<or> q = triple_sq"
    and "blocks (tl (re_split content)) = xs @ (p, block) # ys"
    and "strip block = q @ inner @ q"
    and "strip p \<notin> (\<lambda>b. strip (fst b)) ` set ys"
  shows "map_of (parse_spec_file content) (strip p) = Some (strip inner)"
proof -
  have "map_of (parse_spec_file content) (strip p) = Some (clean_content block)"
    unfolding parse_spec_file_pairs using assms(2,4) by (rule parse_blocks_last)
  then show ?thesis using clean_content_wrapped [OF assms(1,3)] by simp
qed


lemma re_split_single:
  assumes "p \<noteq> []" "NL \<notin> set p" "\<forall>l \<in> set (split_on NL c). sep_match l = None"
  shows "re_split (separator p @ NL # c) = [[], p, NL # c]"
  unfolding re_split_def using assms by (rule split_scan_last_block)

lemma re_split_two:
  assumes "p \<noteq> []" "NL \<notin> set p" "\<forall>l \<in> set (split_on NL c). sep_match l = None"
    and "p' \<noteq> []" "NL \<notin> set p'" "\<forall>l \<in> set (split_on NL c'). sep_match l = None"
  shows "re_split (separator p @ NL # c @ NL # separator p' @ NL # c') =
         [[], p, NL # c @ [NL], p', NL # c']"
  unfolding re_split_def
  by (simp only: split_scan_block [OF assms(1-3)] split_scan_last_block [OF assms(4-6)])

lemmas str_eval = str_def NL_def SP_def HASH_def EQ_def triple_dq_def triple_sq_def

lemmas strip_eval = strip_def lstrip_def rstrip_def isspace_def

lemmas clean_eval = clean_content_def startswith_def endswith_def slice_3_m3_def Let_def

text \<open>
  A document with one entry whose content has spaces around it: the pair of the mapping
  is trimmed.
\<close>

theorem splitter_trims_witness:
  "(str ''a'', str ''x'') \<in> set (parse_spec_file (separator (str ''a'') @ NL # str ''  x  '')) \<and>
   strip (str ''a'') = str ''a'' \<and> strip (str ''x'') = str ''x''"
proof -
  have "re_split (separator (str ''a'') @ NL # str ''  x  '') =
      [[], str ''a'', NL # str ''  x  '']"
    by (rule re_split_single) (simp_all add: str_eval sep_match_def)
  then have "parse_spec_file (separator (str ''a'') @ NL # str ''  x  '') =
      [(strip (str ''a''), clean_content (NL # str ''  x  ''))]"
    by (simp add: parse_spec_file_pairs)
  also have "\<dots> = [(str ''a'', str ''x'')]"
    by (simp add: str_eval strip_eval clean_eval)
  finally have m: "(str ''a'', str ''x'') \<in>
      set (parse_spec_file (separator (str ''a'') @ NL # str ''  x  ''))"
    by simp
  from splitter_trims [OF m] m show ?thesis by (intro conjI) simp_all
qed

text \<open>
  A document with two separator lines for the path \<open>f\<close>: the mapping has the
  content of the second one.
\<close>

theorem splitter_last_wins_witness:
  "map_of (parse_spec_file
     (separator (str ''f'') @ NL # str ''one'' @ NL # separator (str ''f'') @ NL # str ''two''))
     (str ''f'') = Some (str ''two'')"
proof -
  have "re_split
      (separator (str ''f'') @ NL # str ''one'' @ NL # separator (str ''f'') @ NL # str ''two'') =
      [[], str ''f'', NL # str ''one'' @ [NL], str ''f'', NL # str ''two'']"
    by (rule re_split_two) (simp_all add: str_eval sep_match_def)
  then have "blocks (tl (re_split
      (separator (str ''f'') @ NL # str ''one'' @ NL # separator (str ''f'') @ NL # str ''two''))) =
      [(str ''f'', NL # str ''one'' @ [NL])] @ (str ''f'', NL # str ''two'') # []"
    by simp
  then have "map_of (parse_spec_file
      (separator (str ''f'') @ NL # str ''one'' @ NL # separator (str ''f'') @ NL # str ''two''))
      (strip (str ''f'')) = Some (clean_content (NL # str ''two''))"
    by (rule splitter_last_wins) simp
  moreover have "strip (str ''f'') = str ''f''"
    by (simp add: str_eval strip_eval)
  moreover have "clean_content (NL # str ''two'') = str ''two''"
    by (simp add: str_eval strip_eval clean_eval)
  ultimately show ?thesis by simp
qed

text \<open>
  The content block of the claim, \<open>hello\<close> and \<open>world\<close> on two lines
  between a pair of the double-quote delimiter, is parsed to the two lines \<open>hello\<close>
  and \<open>world\<close>.
\<close>

theorem splitter_unwraps_triple_quotes_witness:
  "map_of (parse_spec_file
     (separator (str ''f'') @ NL # triple_dq @ str ''hello'' @ NL # str ''world'' @ triple_dq))
     (str ''f'') = Some (str ''hello'' @ NL # str ''world'')"
proof -
  have "re_split
      (separator (str ''f'') @ NL # triple_dq @ str ''hello'' @ NL # str ''world'' @ triple_dq) =
      [[], str ''f'', NL # triple_dq @ str ''hello'' @ NL # str ''world'' @ triple_dq]"
    by (rule re_split_single) (simp_all add: str_eval sep_match_def)
  then have b: "blocks (tl (re_split
      (separator (str ''f'') @ NL # triple_dq @ str ''hello'' @ NL # str ''world'' @ triple_dq))) =
      [] @ (str ''f'', NL # triple_dq @ str ''hello'' @ NL # str ''world'' @ triple_dq) # []"
    by simp
  have s: "strip (NL # triple_dq @ str ''hello'' @ NL # str ''world'' @ triple_dq) =
      triple_dq @ (str ''hello'' @ NL # str ''world'') @ triple_dq"
    by (simp add: str_eval strip_eval)
  have "map_of (parse_spec_file
      (separator (str ''f'') @ NL # triple_dq @ str ''hello'' @ NL # str ''world'' @ triple_dq))
      (strip (str ''f'')) = Some (strip (str ''hello'' @ NL # str ''world''))"
    by (rule splitter_unwraps_triple_quotes [OF _ b s]) simp_all
  moreover have "strip (str ''f'') = str ''f''"
    by (simp add: str_eval strip_eval)
  moreover have "strip (str ''hello'' @ NL # str ''world'') = str ''hello'' @ NL # str ''world''"
    by (simp add: str_eval strip_eval)
  ultimately show ?thesis by simp
qed


section \<open>The round trip through the Composer and the Splitter\<close>

lemma content_parts_Nil_iff: "content_parts es = [] \<longleftrightarrow> es = []"
  by (cases es) auto










section \<open>Properties of the Composer and the Scanner\<close>

lemma sort_pairs_unique:
  fixes xs ys :: "('a::linorder \<times> 'b::linorder) list"
  assumes "distinct (map fst xs)" "distinct (map fst ys)" "set xs = set ys"
  shows "sort xs = sort ys"
proof -
  from assms(1,2) have "distinct xs" "distinct ys" by (simp_all add: distinct_map)
  then have "distinct (sort xs)" "distinct (sort ys)" by simp_all
  moreover have "set (sort xs) = set (sort ys)" using assms(3) by simp
  ultimately show ?thesis
    by (intro sorted_distinct_set_unique) simp_all
qed

lemma sort_pairs_keys_ascending:
  fixes xs :: "('a::linorder \<times> 'b::linorder) list"
  assumes "distinct (map fst xs)"
  shows "sorted_wrt (<) (map fst (sort xs))"
proof -
  have "sorted (sort xs)" by simp
  then have "sorted_wrt (\<lambda>x y. fst x \<le> fst y) (sort xs)"
    by (rule sorted_wrt_mono_rel [rotated]) (auto simp: less_eq_prod_def)
  then have "sorted (map fst (sort xs))" by (simp add: sorted_map)
  moreover have "distinct (map fst (sort xs))"
    using assms by (simp add: distinct_map)
  ultimately show ?thesis by (simp add: strict_sorted_iff)
qed

lemma content_parts_concat:
  "content_parts es = concat (map (\<lambda>(p, c). [separator p, c, []]) es)"
  by (induction es rule: content_parts.induct) simp_all

text \<open>
  Claim C5. The document the Composer writes depends only on the set of (path, content)
  pairs of the mapping, not on the order in which they were inserted: the document is the
  lines of the blocks (separator line, content, empty line) of exactly the pairs of the
  mapping, taken in strictly ascending order of path and joined by newlines.
\<close>

theorem composer_deterministic:
  assumes "distinct (map fst xs)" "distinct (map fst ys)" "set xs = set ys"
  shows "generate_spec_content xs = generate_spec_content ys \<and>
         (\<exists>es. set es = set xs \<and> sorted_wrt (<) (map fst es) \<and>
            generate_spec_content xs =
              join [NL] (concat (map (\<lambda>(p, c). [separator p, c, []]) es)))"
proof
  show "generate_spec_content xs = generate_spec_content ys"
    by (simp add: generate_spec_content_def sort_pairs_unique [OF assms])
  have "set (sort xs) = set xs" by simp
  moreover have "sorted_wrt (<) (map fst (sort xs))"
    using assms(1) by (rule sort_pairs_keys_ascending)
  moreover have "generate_spec_content xs =
      join [NL] (concat (map (\<lambda>(p, c). [separator p, c, []]) (sort xs)))"
    by (simp only: generate_spec_content_def content_parts_concat)
  ultimately show "\<exists>es. set es = set xs \<and> sorted_wrt (<) (map fst es) \<and>
      generate_spec_content xs =
        join [NL] (concat (map (\<lambda>(p, c). [separator p, c, []]) es))"
    by blast
qed

text \<open>
  The same two pairs inserted in both orders give the same document, the block of
  \<open>a\<close> before the block of \<open>b\<close>.
\<close>

theorem composer_deterministic_witness:
  "generate_spec_content [(str ''b'', str ''x''), (str ''a'', str ''y'')] =
   generate_spec_content [(str ''a'', str ''y''), (str ''b'', str ''x'')] \<and>
   (\<exists>es. set es = set [(str ''b'', str ''x''), (str ''a'', str ''y'')] \<and>
      sorted_wrt (<) (map fst es) \<and>
      generate_spec_content [(str ''b'', str ''x''), (str ''a'', str ''y'')] =
        join [NL] (concat (map (\<lambda>(p, c). [separator p, c, []]) es)))"
  by (rule composer_deterministic) (simp_all add: str_def insert_commute)

lemma scan_loop_append:
  "scan_loop pp (es1 @ es2) st =
     (case scan_loop pp es1 st of Inl e \<Rightarrow> Inl e | Inr st' \<Rightarrow> scan_loop pp es2 st')"
  by (induction pp es1 st rule: scan_loop.induct)
    (auto simp: Let_def split: entry.splits sum.splits read_result.splits)


lemma dotfile_should_skip:
  assumes "rel \<noteq> []" "startswith (last rel) (str ''.'')" "last rel \<noteq> str ''.env.example''"
  shows "should_skip \<lparr>root = r, parts = ps @ rel\<rparr>"
  using assms by (simp add: should_skip_def path_name_def skip_patterns_def)

text \<open>
  Claim C3, as amended. A file whose name (the last component of its path) begins with a
  dot and is not \<open>.env.example\<close> is omitted: the scan of a directory with that file is
  the scan of the directory without it.
\<close>

theorem scanner_omits_dotfiles:
  assumes "rel \<noteq> []" "startswith (last rel) (str ''.'')" "last rel \<noteq> str ''.env.example''"
  shows "scan_directory project_dir (es1 @ (rel, RegularFile r) # es2) =
         scan_directory project_dir (es1 @ es2)"
  using dotfile_should_skip [OF assms]
  by (simp add: scan_directory_def scan_loop_append split: sum.splits)



lemmas scan_eval = scan_directory_def Path_def joinpath_def path_str_def path_name_def
  relative_to_def should_skip_def skip_patterns_def startswith_def endswith_def str_def
  sublist_code Let_def

text \<open>
  Claim C2, at the directory of the claim: \<open>.git/config\<close> and \<open>node_modules/x.js\<close>
  are excluded, \<open>a.log\<close> is kept and \<open>.env.example\<close> is excluded.
\<close>

theorem scanner_exclusion_example:
  "scan_directory (str ''proj'')
     [([str ''.git''], Directory),
      ([str ''.git'', str ''config''], RegularFile (Text (str ''c''))),
      ([str ''node_modules''], Directory),
      ([str ''node_modules'', str ''x.js''], RegularFile (Text (str ''j''))),
      ([str ''a.log''], RegularFile (Text (str ''l''))),
      ([str ''.env.example''], RegularFile (Text (str ''e'')))] =
   Inr \<lparr>scan_files = [(str ''a.log'', str ''l'')], scan_printed = [Added (str ''a.log'')]\<rparr>"
  by (simp add: scan_eval)

text \<open>
  Claim C3 as stated fails: \<open>.config/settings.txt\<close> is in the mapping.
\<close>

theorem scanner_dot_directory_counterexample:
  "scan_directory (str ''proj'')
     [([str ''.config''], Directory),
      ([str ''.config'', str ''settings.txt''], RegularFile (Text (str ''x'')))] =
   Inr \<lparr>scan_files = [(str ''.config/settings.txt'', str ''x'')],
        scan_printed = [Added (str ''.config/settings.txt'')]\<rparr>"
  by (simp add: scan_eval)

text \<open>
  A hidden file next to \<open>a.txt\<close> leaves the scan as it is without it.
\<close>

theorem scanner_omits_dotfiles_witness:
  "scan_directory (str ''proj'')
     ([([str ''a.txt''], RegularFile (Text (str ''x'')))] @
      ([str ''.hidden''], RegularFile (Text (str ''h''))) # []) =
   scan_directory (str ''proj'') ([([str ''a.txt''], RegularFile (Text (str ''x'')))] @ [])"
  by (rule scanner_omits_dotfiles) (simp_all add: startswith_def str_def)



section \<open>Permissions set by the Materializer\<close>

lemma mkdirs_mode_of: "mkdirs ds fs = Inr fs' \<Longrightarrow> mode_of fs' q = mode_of fs q"
proof (induction ds arbitrary: fs)
  case Nil
  then show ?case by simp
next
  case (Cons d ds)
  from Cons.prems have nf: "\<forall>c m. fs d \<noteq> Some (File c m)"
    by (auto split: option.splits node.splits)
  with Cons.prems have "mkdirs ds (fs(d \<mapsto> Dir)) = Inr fs'"
    by (auto split: option.splits node.splits)
  from Cons.IH [OF this] have "mode_of fs' q = mode_of (fs(d \<mapsto> Dir)) q" .
  also have "\<dots> = mode_of fs q"
    using nf by (auto simp: mode_of_def split: option.splits node.splits)
  finally show ?case .
qed

lemma write_text_mode_of:
  "write_text umask p c fs = Inr fs' \<Longrightarrow>
   mode_of fs' q =
     (if q = p then Some (case mode_of fs p of Some m \<Rightarrow> m | None \<Rightarrow> default_mode umask)
      else mode_of fs q)"
  by (auto simp: write_text_def mode_of_def split: if_splits option.splits node.splits)

lemma write_text_is_file:
  "write_text umask p c fs = Inr fs' \<Longrightarrow> \<exists>m. fs' p = Some (File c m)"
  by (auto simp: write_text_def split: if_splits option.splits node.splits)

lemma chmod_file_mode_of:
  "fs p = Some (File c m0) \<Longrightarrow> chmod p m fs = Inr fs' \<Longrightarrow>
   mode_of fs' q = (if q = p then Some m else mode_of fs q)"
  by (auto simp: chmod_def mode_of_def)

lemma create_entry_mode_of:
  assumes "create_entry umask base kv fs = Inr fs'"
  shows "mode_of fs' q =
     (if q = joinpath base (fst kv)
      then Some (if endswith (fst kv) (str ''.sh'') then 493
                 else (case mode_of fs q of Some m \<Rightarrow> m | None \<Rightarrow> default_mode umask))
      else mode_of fs q)"
proof -
  let ?fp = "joinpath base (fst kv)"
  from assms obtain fs1 fs2 where
    mk: "mkdirs (ancestors (parent ?fp)) fs = Inr fs1" and
    wr: "write_text umask ?fp (snd kv) fs1 = Inr fs2" and
    ch: "(if endswith (fst kv) (str ''.sh'') then chmod ?fp 493 fs2 else Inr fs2) = Inr fs'"
    by (auto simp: create_entry_def Let_def split: sum.splits)
  have m1: "mode_of fs1 r = mode_of fs r" for r using mk by (rule mkdirs_mode_of)
  have m2: "mode_of fs2 r =
     (if r = ?fp then Some (case mode_of fs ?fp of Some m \<Rightarrow> m | None \<Rightarrow> default_mode umask)
      else mode_of fs r)" for r
    using write_text_mode_of [OF wr, of r] by (simp add: m1)
  from write_text_is_file [OF wr] obtain m0 where f2: "fs2 ?fp = Some (File (snd kv) m0)" ..
  show ?thesis
  proof (cases "endswith (fst kv) (str ''.sh'')")
    case True
    with ch have "chmod ?fp 493 fs2 = Inr fs'" by simp
    from chmod_file_mode_of [OF f2 this, of q] show ?thesis
      using True by (simp add: m2)
  next
    case False
    with ch have "fs' = fs2" by simp
    then show ?thesis using False by (simp add: m2)
  qed
qed

lemma create_loop_mode_of:
  "create_loop umask base files fs = Inr fs' \<Longrightarrow>
   mode_of fs' q =
     (if \<exists>kv \<in> set files. joinpath base (fst kv) = q
      then Some (if \<exists>kv \<in> set files. joinpath base (fst kv) = q \<and> endswith (fst kv) (str ''.sh'')
                 then 493
                 else (case mode_of fs q of Some m \<Rightarrow> m | None \<Rightarrow> default_mode umask))
      else mode_of fs q)"
proof (induction files arbitrary: fs)
  case Nil
  then show ?case by simp
next
  case (Cons kv rest)
  from Cons.prems obtain fs1 where
    e: "create_entry umask base kv fs = Inr fs1" and
    l: "create_loop umask base rest fs1 = Inr fs'"
    by (auto split: sum.splits)
  note ih = Cons.IH [OF l]
  note st = create_entry_mode_of [OF e, of q]
  show ?case
    unfolding ih st by (auto split: option.splits)
qed

lemma default_mode_not_755: "default_mode umask \<noteq> 493"
proof
  assume "default_mode umask = 493"
  then have "even (default_mode umask) = even (493 :: 12 word)" by simp
  then show False by (simp add: default_mode_def even_and_iff)
qed

text \<open>
  Claim C9. After a materialization that succeeds, the permission bits of every file
  are known: a file written for some path ending in \<open>.sh\<close> has the bits \<open>0o755\<close>
  (493); a file written only for other paths keeps the bits it had, or has those of a new
  file, which are never \<open>0o755\<close>; the bits of every other file are unchanged.
\<close>

theorem materializer_modes:
  "create_directory_structure umask files output_dir fs = Inr fs' \<Longrightarrow>
   mode_of fs' q =
     (if \<exists>kv \<in> set files. joinpath (Path output_dir) (fst kv) = q
      then Some (if \<exists>kv \<in> set files.
                      joinpath (Path output_dir) (fst kv) = q \<and> endswith (fst kv) (str ''.sh'')
                 then 493
                 else (case mode_of fs q of Some m \<Rightarrow> m | None \<Rightarrow> default_mode umask))
      else mode_of fs q) \<and>
   default_mode umask \<noteq> 493"
  unfolding create_directory_structure_def
  by (simp only: create_loop_mode_of default_mode_not_755 not_False_eq_True simp_thms)


lemmas fs_eval = create_directory_structure_def create_entry_def Path_def joinpath_def
  parent_def ancestors_def write_text_def chmod_def startswith_def endswith_def str_def
  suffix_to_prefix Let_def upt_rec

text \<open>
  With umask \<open>0o022\<close> and an empty file system: \<open>run.sh\<close> gets \<open>0o755\<close>,
  \<open>a.py\<close> the bits of a new file, and nothing else appears.
\<close>

theorem materializer_modes_witness:
  "\<exists>fs'. create_directory_structure 18
            [(str ''run.sh'', str ''x''), (str ''a.py'', str ''y'')] (str ''out'') Map.empty
          = Inr fs' \<and>
     mode_of fs' (joinpath (Path (str ''out'')) (str ''run.sh'')) = Some 493 \<and>
     mode_of fs' (joinpath (Path (str ''out'')) (str ''a.py'')) = Some (default_mode 18) \<and>
     mode_of fs' (joinpath (Path (str ''out'')) (str ''b.py'')) = None"
proof -
  have "\<exists>fs'. create_directory_structure 18
            [(str ''run.sh'', str ''x''), (str ''a.py'', str ''y'')] (str ''out'') Map.empty
          = Inr fs'"
    by (simp add: fs_eval)
  then obtain fs' where r: "create_directory_structure 18
            [(str ''run.sh'', str ''x''), (str ''a.py'', str ''y'')] (str ''out'') Map.empty
          = Inr fs'" ..
  have "mode_of fs' (joinpath (Path (str ''out'')) (str ''run.sh'')) = Some 493"
    using materializer_modes [OF r, of "joinpath (Path (str ''out'')) (str ''run.sh'')"]
    by (simp add: fs_eval mode_of_def)
  moreover have "mode_of fs' (joinpath (Path (str ''out'')) (str ''a.py'')) = Some (default_mode 18)"
    using materializer_modes [OF r, of "joinpath (Path (str ''out'')) (str ''a.py'')"]
    by (simp add: fs_eval mode_of_def)
  moreover have "mode_of fs' (joinpath (Path (str ''out'')) (str ''b.py'')) = None"
    using materializer_modes [OF r, of "joinpath (Path (str ''out'')) (str ''b.py'')"]
    by (simp add: fs_eval mode_of_def)
  ultimately show ?thesis using r by blast
qed

end
